theory Spec2Isabelle
  imports Main "HOL-Library.Word"
begin

section \<open>The subscription of sub.c\<close>

text \<open>
  The status codes that sub.c returns (the enumeration itself is declared in a header of
  the library).
\<close>

datatype natsStatus =
    NATS_OK
  | NATS_INVALID_ARG
  | NATS_NO_MEMORY
  | NATS_CONNECTION_CLOSED
  | NATS_INVALID_SUBSCRIPTION
  | NATS_MAX_DELIVERED_MSGS
  | NATS_ILLEGAL_STATE
  | NATS_SLOW_CONSUMER
  | NATS_TIMEOUT

text \<open>
  Modelled from the spec: the macros \<open>nats_setDefaultError\<close> and
  \<open>NATS_UPDATE_ERR_STACK\<close> are defined in a header that is not part of the sources read
  here. Errors are returned to the immediate caller: both hand back the status they are
  given.
\<close>

definition nats_setDefaultError :: "natsStatus \<Rightarrow> natsStatus" where
  "nats_setDefaultError e = e"

definition NATS_UPDATE_ERR_STACK :: "natsStatus \<Rightarrow> natsStatus" where
  "NATS_UPDATE_ERR_STACK e = e"

text \<open>
  A message is known by its address. Function pointers and closures are known by a
  number. The opaque objects of the collaborators (timer, thread, connection) are read by
  sub.c only for being \<open>NULL\<close> or not, so a pointer to one of them is an \<open>option\<close>.
\<close>

type_synonym msg = nat
type_synonym natsMsgHandler = nat

text \<open>
  Times and timeouts are \<open>int64_t\<close>: 64-bit words, read as signed numbers with \<open>sint\<close>.
  An addition that overflows wraps around, as it does in the compiled code.
\<close>

type_synonym int64_t = "64 word"

datatype natsTimer = The_signalTimer
datatype natsThread = The_deliverMsgsThread

record natsConnection =
  maxPendingMsgs :: int  \<comment> \<open>\<open>nc->opts->maxPendingMsgs\<close>\<close>

text \<open>
  Every call that leaves sub.c (mutex, condition, timer, thread, connection, memory, the
  user's handler) is written to a trace, in program order. \<open>Retain\<close> and \<open>Release\<close> are
  the two macros \<open>_retain\<close> and \<open>_release\<close>.
\<close>

datatype event =
    Lock | Unlock | TryLock bool
  | ConnLock | ConnUnlock
  | CondWait | CondTimedWait int64_t | CondBroadcast
  | Now
  | Retain | Release
  | Calloc bool | MutexCreate natsStatus | CondCreate natsStatus
  | Strdup_subject bool | Strdup_queue bool
  | TimerCreate int natsStatus | TimerReset int | TimerStop | TimerDestroy
  | ThreadCreate natsStatus | ThreadDetach | ThreadDestroy
  | Handler natsMsgHandler msg
  | RemoveSubscription
  | MsgDestroy msg
  | ConnRetain | ConnRelease
  | Free_subject | Free_queue | CondDestroy | MutexDestroy | Free_sub

text \<open>
  The fields of \<open>natsSubscription\<close> that sub.c reads or writes. \<open>delivered\<close> and the cap
  are \<open>uint64_t\<close>; the other counters are C \<open>int\<close>s, taken as integers (signed overflow
  is undefined in C). The list of messages is the three fields of \<open>msgList\<close> together with
  \<open>msg_next\<close>, the \<open>next\<close> field of every message. \<open>trace\<close> is not a field of the
  struct: it is the log of the calls made so far.
\<close>

record natsSubscription =
  refs :: int
  conn :: "natsConnection option"
  msgCb :: "natsMsgHandler option"
  msgCbClosure :: nat
  subject :: "string option"
  queue :: "string option"
  noDelay :: bool
  pendingMax :: int
  signalLimit :: int
  signalTimer :: "natsTimer option"
  signalTimerInterval :: int
  signalFailCount :: int
  deliverMsgsThread :: "natsThread option"
  inWait :: int
  slowConsumer :: bool
  closed :: bool
  connClosed :: bool
  delivered :: "64 word"
  max_sub :: "64 word"
  msgList_head :: "msg option"
  msgList_tail :: "msg option"
  msgList_count :: int
  msg_next :: "msg \<Rightarrow> msg option"
  trace :: "event list"

definition log :: "event list \<Rightarrow> natsSubscription \<Rightarrow> natsSubscription" where
  "log evs s = s\<lparr>trace := trace s @ evs\<rparr>"

text \<open>
  While a thread does not hold the mutex, other threads and the collaborators it called
  may change the subscription. What it finds when it takes the mutex again is given by an
  interference, a function on the struct chosen by the environment; the trace of the thread
  is kept.
\<close>

type_synonym interference = "natsSubscription \<Rightarrow> natsSubscription"

definition interfere :: "interference \<Rightarrow> natsSubscription \<Rightarrow> natsSubscription" where
  "interfere e s = (e s)\<lparr>trace := trace s\<rparr>"

text \<open>
  How a run of the model can stop without returning: a \<open>NULL\<close> pointer is dereferenced
  or called, the list of interferences given to the model has no further entry (the thread
  is still waiting, or still looping, when the model is cut off), or a loop of its own
  does not terminate.
\<close>

datatype stop = NullDeref | OracleEnd | Diverges

subsection \<open>Taking the head message off the list\<close>

text \<open>
  The same five statements in \<open>natsSub_deliverMsgs\<close> and in \<open>natsSubscription_NextMsg\<close>:
  \<^verbatim>\<open>
  sub->msgList.head = msg->next;
  if (sub->msgList.tail == msg) sub->msgList.tail = NULL;
  sub->msgList.count--;
  msg->next = NULL;
  \<close>
  for \<open>msg\<close> the head of the list.
\<close>

definition pop_head :: "msg \<Rightarrow> natsSubscription \<Rightarrow> natsSubscription" where
  "pop_head m s =
     s\<lparr>msgList_head := msg_next s m,
       msgList_tail := (if msgList_tail s = Some m then None else msgList_tail s),
       msgList_count := msgList_count s - 1,
       msg_next := (msg_next s)(m := None)\<rparr>"

subsection \<open>Reference count and destruction\<close>

text \<open>
  The loop of \<open>_freeSubscription\<close> destroys the messages from the head on. It writes
  neither \<open>tail\<close> nor \<open>count\<close>. On a cyclic chain it does not end: the value is \<open>None\<close>.
\<close>

partial_function (option) freeSubscription_drain :: "natsSubscription \<Rightarrow> natsSubscription option" where
  "freeSubscription_drain s =
     (case msgList_head s of
        None \<Rightarrow> Some s
      | Some m \<Rightarrow> freeSubscription_drain (log [MsgDestroy m] (s\<lparr>msgList_head := msg_next s m\<rparr>)))"




definition natsSub_retain :: "natsSubscription \<Rightarrow> natsSubscription" where
  "natsSub_retain s = log [Unlock] ((log [Lock] s)\<lparr>refs := refs s + 1\<rparr>)"


subsection \<open>Close, and the switch to immediate delivery\<close>

definition natsSub_close :: "natsSubscription \<Rightarrow> bool \<Rightarrow> natsSubscription" where
  "natsSub_close s connectionClosed =
     (let s1 = log [Lock] s;
          s2 = (if signalTimer s1 \<noteq> None then log [TimerStop] s1 else s1);
          s3 = s2\<lparr>closed := True, connClosed := connectionClosed\<rparr>
      in log [CondBroadcast, Unlock] s3)"

definition natsSubscription_NoDeliveryDelay ::
  "natsSubscription option \<Rightarrow> natsStatus \<times> natsSubscription option" where
  "natsSubscription_NoDeliveryDelay sub =
     (case sub of
        None \<Rightarrow> (nats_setDefaultError NATS_INVALID_ARG, None)
      | Some s \<Rightarrow>
          let s1 = log [Lock] s;
              s2 = (if \<not> noDelay s1 then log [TimerStop] (s1\<lparr>noDelay := True\<rparr>) else s1)
          in (NATS_OK, Some (log [Unlock] s2)))"

subsection \<open>The signal timer\<close>

text \<open>
  \<open>_signalMsgAvailable\<close>. \<open>got\<close> is what \<open>natsMutex_TryLock\<close> returns. When the tenth
  failure makes the callback wait for the mutex, what it finds there is the interference
  \<open>e\<close> of the thread that held it.
\<close>

definition signalMsgAvailable_locked :: "natsSubscription \<Rightarrow> natsSubscription" where
  "signalMsgAvailable_locked s =
     (let s1 =
        (if msgList_count s = 0
         then (let s' = s\<lparr>signalTimerInterval := 10000\<rparr>
               in log [TimerReset (signalTimerInterval s')] s')
         else if inWait s > 0 then log [CondBroadcast] s
         else s)
      in log [Unlock] s1)"

definition signalMsgAvailable :: "bool \<Rightarrow> interference \<Rightarrow> natsSubscription \<Rightarrow> natsSubscription" where
  "signalMsgAvailable got e s =
     (let s0 = log [TryLock got] s in
      if \<not> got then
        (let s1 = s0\<lparr>signalFailCount := signalFailCount s0 + 1\<rparr> in
         if signalFailCount s1 = 10
         then signalMsgAvailable_locked (interfere e (log [Lock] (s1\<lparr>signalFailCount := 0\<rparr>)))
         else s1)
      else signalMsgAvailable_locked s0)"


subsection \<open>The delivery worker\<close>

text \<open>
  The inner loop of \<open>natsSub_deliverMsgs\<close>:
  \<^verbatim>\<open>while ((sub->msgList.count == 0) && !(sub->closed)) natsCondition_Wait(sub->cond, sub->mu);\<close>
  Each wait gives the mutex up; the thread wakes on the next interference of the list.
  When the list has none left the thread is never woken.
\<close>

fun deliverMsgs_wait ::
  "interference list \<Rightarrow> natsSubscription \<Rightarrow> stop + (natsSubscription \<times> interference list)" where
  "deliverMsgs_wait [] s =
     (if msgList_count s = 0 \<and> \<not> closed s then Inl OracleEnd else Inr (s, []))"
| "deliverMsgs_wait (e # es) s =
     (if msgList_count s = 0 \<and> \<not> closed s
      then deliverMsgs_wait es (interfere e (log [CondWait] s))
      else Inr (s, e # es))"

datatype ctl = Continue | Break

text \<open>
  The rest of one iteration, from \<open>sub->inWait--\<close> to the end of the loop body. \<open>mcb\<close> is
  the handler that the thread read from \<open>sub->msgCb\<close> when it started.
\<close>

definition deliverMsgs_body ::
  "natsMsgHandler option \<Rightarrow> natsSubscription \<Rightarrow> stop + (ctl \<times> natsSubscription)" where
  "deliverMsgs_body mcb s =
     (let s1 = s\<lparr>inWait := inWait s - 1\<rparr> in
      if closed s1 then Inr (Break, log [Unlock] s1)
      else
        (case msgList_head s1 of
           None \<Rightarrow> Inr (Continue, log [Unlock] s1)
         | Some m \<Rightarrow>
             let s2 = s1\<lparr>delivered := delivered s1 + 1\<rparr>;
                 delivered' = delivered s2;
                 s3 = pop_head m s2;
                 max' = max_sub s3;
                 s4 = log [Unlock] s3
             in
               (case (if max' = 0 \<or> delivered' \<le> max'
                      then (case mcb of None \<Rightarrow> Inl NullDeref
                            | Some cb \<Rightarrow> Inr (log [Handler cb m] s4))
                      else Inr s4) of
                  Inl f \<Rightarrow> Inl f
                | Inr s5 \<Rightarrow>
                    if max' > 0 \<and> delivered' \<ge> max'
                    then Inr (Break, log [RemoveSubscription] s5)
                    else Inr (Continue, s5))))"

definition deliverMsgs_iter ::
  "natsMsgHandler option \<Rightarrow> interference list \<Rightarrow> natsSubscription
     \<Rightarrow> stop + (ctl \<times> natsSubscription \<times> interference list)" where
  "deliverMsgs_iter mcb es s =
     (case deliverMsgs_wait es ((log [Lock] s)\<lparr>inWait := inWait s + 1\<rparr>) of
        Inl f \<Rightarrow> Inl f
      | Inr (s1, es1) \<Rightarrow>
          (case deliverMsgs_body mcb s1 of
             Inl f \<Rightarrow> Inl f
           | Inr (c, s2) \<Rightarrow> Inr (c, s2, es1)))"

text \<open>
  \<open>while (true)\<close>: after an iteration that goes on, the thread takes the mutex again and
  finds the subscription as the next interference left it.
\<close>

function deliverMsgs_loop ::
  "natsMsgHandler option \<Rightarrow> interference list \<Rightarrow> natsSubscription
     \<Rightarrow> stop + (natsSubscription \<times> interference list)" where
  "deliverMsgs_loop mcb es s =
     (case deliverMsgs_iter mcb es s of
        Inl f \<Rightarrow> Inl f
      | Inr (c, s', es') \<Rightarrow>
          (case c of
             Break \<Rightarrow> Inr (s', es')
           | Continue \<Rightarrow>
               (case es' of
                  [] \<Rightarrow> Inl OracleEnd
                | e # es'' \<Rightarrow> deliverMsgs_loop mcb es'' (interfere e s'))))"
  by pat_completeness auto
termination
proof -
  have wait_len: "length es' \<le> length es"
    if "deliverMsgs_wait es s = Inr (s', es')" for es s s' es'
    using that
  proof (induction es arbitrary: s)
    case Nil
    then show ?case by (simp split: if_splits)
  next
    case (Cons e es)
    show ?case
    proof (cases "msgList_count s = 0 \<and> \<not> closed s")
      case True
      with Cons.prems have "deliverMsgs_wait es (interfere e (log [CondWait] s)) = Inr (s', es')"
        by simp
      from Cons.IH [OF this] show ?thesis by simp
    next
      case False
      with Cons.prems show ?thesis by auto
    qed
  qed
  have iter_len: "length es' \<le> length es"
    if "deliverMsgs_iter mcb es s = Inr (c, s', es')" for mcb es s c s' es'
    using that
    by (auto simp: deliverMsgs_iter_def split: sum.splits prod.splits dest: wait_len)
  show ?thesis
    apply (relation "measure (\<lambda>(mcb, es, s). length es)")
     apply simp
    apply (auto dest: iter_len)
    done
qed

declare deliverMsgs_loop.simps [simp del]


subsection \<open>The synchronous fetch\<close>

text \<open>
  One turn of the wait loop of \<open>natsSubscription_NextMsg\<close> is described by a wake-up:
  what \<open>nats_Now\<close> returns if it is called in this turn, the status that
  \<open>natsCondition_AbsoluteTimedWait\<close> returns, and the interference of the other threads
  during the wait. The deadline \<open>target = nats_Now() + timeout\<close> is computed in 64 bits.
\<close>

type_synonym wakeup = "int64_t \<times> natsStatus \<times> interference"

fun NextMsg_wait ::
  "int64_t \<Rightarrow> wakeup list \<Rightarrow> natsStatus \<Rightarrow> int64_t \<Rightarrow> natsSubscription
     \<Rightarrow> stop + (natsStatus \<times> natsSubscription)" where
  "NextMsg_wait timeout [] st target s =
     (if msgList_count s = 0 \<and> st \<noteq> NATS_TIMEOUT \<and> \<not> closed s
      then Inl OracleEnd else Inr (st, s))"
| "NextMsg_wait timeout ((now, wst, e) # ws) st target s =
     (if msgList_count s = 0 \<and> st \<noteq> NATS_TIMEOUT \<and> \<not> closed s
      then
        (let s1 = (if target = 0 then log [Now] s else s);
             target' = (if target = 0 then now + timeout else target);
             s2 = interfere e (log [CondTimedWait target'] s1);
             st' = (if wst \<noteq> NATS_OK then nats_setDefaultError wst else wst)
         in NextMsg_wait timeout ws st' target' s2)
      else Inr (st, s))"

text \<open>
  From \<open>if (s == NATS_OK)\<close> after the wait to the end of the function. The result is the
  status, the message written to \<open>*nextMsg\<close> if one is, and the subscription.
\<close>

definition NextMsg_deliver ::
  "natsStatus \<Rightarrow> natsSubscription \<Rightarrow> stop + (natsStatus \<times> msg option \<times> natsSubscription option)" where
  "NextMsg_deliver st s =
     (let (st1, removeSub, s1) =
        (if st = NATS_OK then
           (let s' = s\<lparr>delivered := delivered s + 1\<rparr> in
            if max_sub s' > 0 then
              (if delivered s' > max_sub s'
               then (nats_setDefaultError NATS_MAX_DELIVERED_MSGS, False, s')
               else if delivered s' = max_sub s' then (st, True, s')
               else (st, False, s'))
            else (st, False, s'))
         else (st, False, s))
      in
        if st1 = NATS_OK then
          (case msgList_head s1 of
             None \<Rightarrow> Inl NullDeref
           | Some m \<Rightarrow>
               let s2 = log [Unlock] (pop_head m s1);
                   s3 = (if removeSub then log [RemoveSubscription] s2 else s2)
               in Inr (NATS_UPDATE_ERR_STACK st1, Some m, Some s3))
        else
          (let s2 = log [Unlock] s1;
               s3 = (if removeSub then log [RemoveSubscription] s2 else s2)
           in Inr (NATS_UPDATE_ERR_STACK st1, None, Some s3)))"

text \<open>From \<open>nc = sub->conn\<close> on: the wait, then the delivery.\<close>

definition NextMsg_fetch ::
  "natsSubscription \<Rightarrow> int64_t \<Rightarrow> wakeup list
     \<Rightarrow> stop + (natsStatus \<times> msg option \<times> natsSubscription option)" where
  "NextMsg_fetch s timeout ws =
     (if 0 < sint timeout then
        (case NextMsg_wait timeout ws NATS_OK 0 (s\<lparr>inWait := inWait s + 1\<rparr>) of
           Inl f \<Rightarrow> Inl f
         | Inr (st, s1) \<Rightarrow>
             let s2 = s1\<lparr>inWait := inWait s1 - 1\<rparr>;
                 st' = (if closed s2 then nats_setDefaultError NATS_INVALID_SUBSCRIPTION else st)
             in NextMsg_deliver st' s2)
      else
        (let st = (if msgList_count s = 0 then NATS_TIMEOUT else NATS_OK);
             st' = (if st \<noteq> NATS_OK then nats_setDefaultError st else st)
         in NextMsg_deliver st' s))"

text \<open>
  \<open>natsSubscription_NextMsg\<close>. \<open>nextMsg\<close> tells whether the out pointer is not \<open>NULL\<close>.
\<close>

definition natsSubscription_NextMsg ::
  "bool \<Rightarrow> natsSubscription option \<Rightarrow> int64_t \<Rightarrow> wakeup list
     \<Rightarrow> stop + (natsStatus \<times> msg option \<times> natsSubscription option)" where
  "natsSubscription_NextMsg nextMsg sub timeout ws =
     (case sub of
        None \<Rightarrow> Inr (nats_setDefaultError NATS_INVALID_ARG, None, None)
      | Some s0 \<Rightarrow>
          if \<not> nextMsg then Inr (nats_setDefaultError NATS_INVALID_ARG, None, Some s0)
          else
            (let s = log [Lock] s0 in
             if connClosed s
             then Inr (nats_setDefaultError NATS_CONNECTION_CLOSED, None, Some (log [Unlock] s))
             else if closed s
             then
               (let st = (if max_sub s > 0 \<and> delivered s \<ge> max_sub s
                          then NATS_MAX_DELIVERED_MSGS else NATS_INVALID_SUBSCRIPTION)
                in Inr (nats_setDefaultError st, None, Some (log [Unlock] s)))
             else if msgCb s \<noteq> None
             then Inr (nats_setDefaultError NATS_ILLEGAL_STATE, None, Some (log [Unlock] s))
             else if slowConsumer s
             then Inr (nats_setDefaultError NATS_SLOW_CONSUMER, None,
                       Some (log [Unlock] (s\<lparr>slowConsumer := False\<rparr>)))
             else NextMsg_fetch s timeout ws))"

subsection \<open>Creation\<close>


text \<open>\<open>NATS_CALLOC\<close> gives zeroed memory.\<close>

definition calloc_sub :: natsSubscription where
  "calloc_sub =
     \<lparr>refs = 0, conn = None, msgCb = None, msgCbClosure = 0, subject = None, queue = None,
      noDelay = False, pendingMax = 0, signalLimit = 0, signalTimer = None,
      signalTimerInterval = 0, signalFailCount = 0, deliverMsgsThread = None, inWait = 0,
      slowConsumer = False, closed = False, connClosed = False, delivered = 0, max_sub = 0,
      msgList_head = None, msgList_tail = None, msgList_count = 0,
      msg_next = (\<lambda>m. None), trace = []\<rparr>"





section \<open>The list of messages\<close>

text \<open>
  \<open>msgs_at nxt p ms\<close>: following \<open>next\<close> from the pointer \<open>p\<close> visits exactly the messages
  \<open>ms\<close> and then reaches \<open>NULL\<close>. \<open>msgList_wf s ms\<close>: the list of the subscription holds
  the messages \<open>ms\<close>, oldest first; \<open>tail\<close> points to the last of them and \<open>count\<close> is
  their number.
\<close>

fun msgs_at :: "(msg \<Rightarrow> msg option) \<Rightarrow> msg option \<Rightarrow> msg list \<Rightarrow> bool" where
  "msgs_at nxt p [] = (p = None)"
| "msgs_at nxt p (m # ms) = (p = Some m \<and> msgs_at nxt (nxt m) ms)"

definition msgList_wf :: "natsSubscription \<Rightarrow> msg list \<Rightarrow> bool" where
  "msgList_wf s ms =
     (msgs_at (msg_next s) (msgList_head s) ms \<and> distinct ms \<and>
      msgList_tail s = (if ms = [] then None else Some (last ms)) \<and>
      msgList_count s = int (length ms))"

definition tail_null_iff_empty :: "natsSubscription \<Rightarrow> bool" where
  "tail_null_iff_empty s = ((msgList_tail s = None) = (msgList_count s = 0))"

text \<open>The events that a call added to the trace.\<close>

definition new_events :: "natsSubscription \<Rightarrow> natsSubscription \<Rightarrow> event list" where
  "new_events s s' = drop (length (trace s)) (trace s')"

text \<open>What a call of \<open>natsSubscription_NextMsg\<close> returned and what it logged.\<close>

definition result_status ::
  "stop + (natsStatus \<times> msg option \<times> natsSubscription option) \<Rightarrow> natsStatus option" where
  "result_status r = (case r of Inl f \<Rightarrow> None | Inr (st, m, s') \<Rightarrow> Some st)"

definition result_trace ::
  "stop + (natsStatus \<times> msg option \<times> natsSubscription option) \<Rightarrow> event list" where
  "result_trace r =
     (case r of Inl f \<Rightarrow> [] | Inr (st, m, None) \<Rightarrow> [] | Inr (st, m, Some s') \<Rightarrow> trace s')"

section \<open>Example subscriptions\<close>

text \<open>
  \<open>chain ms\<close> links the messages \<open>ms\<close> in this order; \<open>holding ms\<close> makes them the list
  of a subscription.
\<close>

fun chain :: "msg list \<Rightarrow> msg \<Rightarrow> msg option" where
  "chain [] = (\<lambda>x. None)"
| "chain (m # ms) = (chain ms)(m := (case ms of [] \<Rightarrow> None | n # ns \<Rightarrow> Some n))"

definition holding :: "msg list \<Rightarrow> natsSubscription \<Rightarrow> natsSubscription" where
  "holding ms s =
     s\<lparr>msgList_head := (case ms of [] \<Rightarrow> None | m # ns \<Rightarrow> Some m),
       msgList_tail := (if ms = [] then None else Some (last ms)),
       msgList_count := int (length ms),
       msg_next := chain ms\<rparr>"

text \<open>
  A synchronous subscription with its signal timer, and an asynchronous one with timer and
  delivery thread, both with an empty list.
\<close>

definition sub_sync :: natsSubscription where
  "sub_sync =
     calloc_sub\<lparr>refs := 2, conn := Some \<lparr>maxPendingMsgs = 4\<rparr>, subject := Some ''x'',
       pendingMax := 4, signalLimit := 3, signalTimer := Some The_signalTimer,
       signalTimerInterval := 10000\<rparr>"

definition sub_async :: natsSubscription where
  "sub_async =
     sub_sync\<lparr>refs := 3, msgCb := Some 7, deliverMsgsThread := Some The_deliverMsgsThread\<rparr>"

text \<open>
  A worker whose subscription has a cap of two and one message delivered: it waits on the
  empty list and wakes to find the messages 5 and 6.
\<close>

definition worker_start :: natsSubscription where
  "worker_start = sub_async\<lparr>max_sub := 2, delivered := 1\<rparr>"

definition worker_woken :: natsSubscription where
  "worker_woken =
     interfere (holding [5, 6])
       (log [CondWait] ((log [Lock] worker_start)\<lparr>inWait := inWait worker_start + 1\<rparr>))"

text \<open>
  Synchronous subscriptions with a cap of three that hold the messages 5 and 6: one fetch
  below the cap, and at the cap with the removal still to come. One that holds the message
  5 and has no cap.
\<close>

definition fetch_two :: natsSubscription where
  "fetch_two = holding [5, 6] (sub_sync\<lparr>max_sub := 3, delivered := 2\<rparr>)"


definition fetch_one :: natsSubscription where
  "fetch_one = holding [5] sub_sync"

text \<open>
  A fetch with a timeout of 100 on the empty subscription, at time 1000: woken once with
  nothing changed, then again with the message 5 in the list.
\<close>

definition fetch_woken :: natsSubscription where
  "fetch_woken =
     interfere (holding [5])
       (log [CondTimedWait 1100]
         (interfere id
           (log [Now, CondTimedWait 1100]
             ((log [Lock] sub_sync)\<lparr>inWait := inWait sub_sync + 1\<rparr>))))"




section \<open>Auxiliary facts\<close>

lemmas example_defs =
  worker_start_def worker_woken_def sub_async_def sub_sync_def calloc_sub_def holding_def
  interfere_def log_def

subsection \<open>Traces and lists\<close>

lemma trace_interfere [simp]: "trace (interfere e s) = trace s"
  by (simp add: interfere_def)

lemma trace_log [simp]: "trace (log evs s) = trace s @ evs"
  by (simp add: log_def)

lemma new_events_append: "trace s' = trace s @ evs \<Longrightarrow> new_events s s' = evs"
  by (simp add: new_events_def)

lemma msgs_at_upd: "m \<notin> set ms \<Longrightarrow> msgs_at (nxt(m := v)) p ms = msgs_at nxt p ms"
  by (induction ms arbitrary: p) auto

lemma msgList_wf_tail_null: "msgList_wf s ms \<Longrightarrow> tail_null_iff_empty s"
  by (auto simp: msgList_wf_def tail_null_iff_empty_def)

lemma msgList_wf_cong:
  "msgList_head s' = msgList_head s \<Longrightarrow> msgList_tail s' = msgList_tail s \<Longrightarrow>
   msgList_count s' = msgList_count s \<Longrightarrow> msg_next s' = msg_next s \<Longrightarrow>
   msgList_wf s' ms = msgList_wf s ms"
  by (simp add: msgList_wf_def)

lemma msgList_wf_head: "msgList_wf s (m # ms) \<Longrightarrow> msgList_head s = Some m"
  by (simp add: msgList_wf_def)

lemma msgList_wf_log [simp]: "msgList_wf (log evs s) ms = msgList_wf s ms"
  by (rule msgList_wf_cong) (simp_all add: log_def)

lemma msgList_wf_pop:
  assumes "msgList_wf s (m # ms)"
  shows "msgList_wf (pop_head m s) ms"
proof -
  from assms have nxt: "msgs_at (msg_next s) (msg_next s m) ms"
    and d: "m \<notin> set ms" "distinct ms"
    and tl: "msgList_tail s = Some (last (m # ms))"
    and c: "msgList_count s = int (length (m # ms))"
    by (auto simp: msgList_wf_def)
  have "msgs_at ((msg_next s)(m := None)) (msg_next s m) ms"
    using nxt d(1) by (simp add: msgs_at_upd)
  moreover have "(if msgList_tail s = Some m then None else msgList_tail s)
      = (if ms = [] then None else Some (last ms))"
    using tl d(1) by (cases ms) auto
  ultimately show ?thesis
    using d(2) c by (simp add: msgList_wf_def pop_head_def)
qed


lemma drain_msgs_at:
  "msgs_at (msg_next s) (msgList_head s) ms \<Longrightarrow>
   freeSubscription_drain s = Some (log (map MsgDestroy ms) (s\<lparr>msgList_head := None\<rparr>))"
proof (induction ms arbitrary: s)
  case Nil
  then have "msgList_head s = None" by simp
  then show ?case
    by (subst freeSubscription_drain.simps) (cases s, simp add: log_def)
next
  case (Cons m ms)
  let ?s2 = "log [MsgDestroy m] (s\<lparr>msgList_head := msg_next s m\<rparr>)"
  from Cons.prems have hd: "msgList_head s = Some m"
    and rest: "msgs_at (msg_next s) (msg_next s m) ms" by simp_all
  have "msgs_at (msg_next ?s2) (msgList_head ?s2) ms"
    using rest by (simp add: log_def)
  from Cons.IH [OF this]
  have "freeSubscription_drain ?s2 = Some (log (map MsgDestroy (m # ms)) (s\<lparr>msgList_head := None\<rparr>))"
    by (simp add: log_def)
  then show ?case
    by (subst freeSubscription_drain.simps) (simp add: hd)
qed

subsection \<open>Steps of the worker and of the fetch\<close>

lemma deliverMsgs_wait_ready:
  "\<not> (msgList_count s = 0 \<and> \<not> closed s) \<Longrightarrow> deliverMsgs_wait es s = Inr (s, es)"
  by (cases es) auto

lemma deliverMsgs_body_pop:
  assumes "\<not> closed s" and "msgList_head s = Some m"
  shows "deliverMsgs_body (Some cb) s =
     Inr (if max_sub s > 0 \<and> delivered s + 1 \<ge> max_sub s then Break else Continue,
          log ([Unlock]
               @ (if max_sub s = 0 \<or> delivered s + 1 \<le> max_sub s then [Handler cb m] else [])
               @ (if max_sub s > 0 \<and> delivered s + 1 \<ge> max_sub s then [RemoveSubscription] else []))
            (pop_head m (s\<lparr>inWait := inWait s - 1, delivered := delivered s + 1\<rparr>)))"
  using assms
  by (simp add: deliverMsgs_body_def Let_def pop_head_def log_def)

lemma deliverMsgs_loop_closed:
  assumes "closed s"
  shows "deliverMsgs_loop mcb es s = Inr (log [Lock, Unlock] s, es)"
proof -
  let ?s0 = "(log [Lock] s)\<lparr>inWait := inWait s + 1\<rparr>"
  have c: "closed ?s0" using assms by (simp add: log_def)
  have w: "deliverMsgs_wait es ?s0 = Inr (?s0, es)"
    using c by (simp add: deliverMsgs_wait_ready)
  have b: "deliverMsgs_body mcb ?s0 = Inr (Break, log [Lock, Unlock] s)"
    using assms by (simp add: deliverMsgs_body_def log_def)
  show ?thesis
    by (subst deliverMsgs_loop.simps) (simp add: deliverMsgs_iter_def w b)
qed

lemma NextMsg_wait_ready:
  "\<not> (msgList_count s = 0 \<and> st \<noteq> NATS_TIMEOUT \<and> \<not> closed s) \<Longrightarrow>
   NextMsg_wait t ws st target s = Inr (st, s)"
  by (cases ws) auto

lemma NextMsg_deliver_error:
  "st \<noteq> NATS_OK \<Longrightarrow> NextMsg_deliver st s = Inr (st, None, Some (log [Unlock] s))"
  by (simp add: NextMsg_deliver_def NATS_UPDATE_ERR_STACK_def)

lemma NextMsg_deliver_over:
  assumes "max_sub s > 0 \<and> delivered s + 1 > max_sub s"
  shows "NextMsg_deliver NATS_OK s =
           Inr (NATS_MAX_DELIVERED_MSGS, None, Some (log [Unlock] (s\<lparr>delivered := delivered s + 1\<rparr>)))"
  using assms
  by (simp add: NextMsg_deliver_def Let_def nats_setDefaultError_def NATS_UPDATE_ERR_STACK_def)

lemma NextMsg_deliver_take:
  assumes "\<not> (max_sub s > 0 \<and> delivered s + 1 > max_sub s)" and "msgList_head s = Some m"
  shows "NextMsg_deliver NATS_OK s =
           Inr (NATS_OK, Some m,
                Some (log (if max_sub s > 0 \<and> delivered s + 1 = max_sub s
                           then [Unlock, RemoveSubscription] else [Unlock])
                        (pop_head m (s\<lparr>delivered := delivered s + 1\<rparr>))))"
  using assms
  by (auto simp add: NextMsg_deliver_def Let_def nats_setDefaultError_def
      NATS_UPDATE_ERR_STACK_def log_def)

lemma NextMsg_deliver_not_timeout:
  "NextMsg_deliver NATS_OK s \<noteq> Inr (NATS_TIMEOUT, r, s')"
  by (auto simp: NextMsg_deliver_def Let_def nats_setDefaultError_def NATS_UPDATE_ERR_STACK_def
      split: option.splits)

lemma NextMsg_deliver_events:
  "NextMsg_deliver st s = Inr (st', r, Some s') \<Longrightarrow>
   trace s' = trace s @ [Unlock] \<or> trace s' = trace s @ [Unlock, RemoveSubscription]"
  by (auto simp: NextMsg_deliver_def Let_def pop_head_def log_def split: option.splits if_splits)

lemma NextMsg_checks_pass:
  "\<not> connClosed s \<Longrightarrow> \<not> closed s \<Longrightarrow> msgCb s = None \<Longrightarrow> \<not> slowConsumer s \<Longrightarrow>
   natsSubscription_NextMsg True (Some s) t ws = NextMsg_fetch (log [Lock] s) t ws"
  by (simp add: natsSubscription_NextMsg_def log_def)

lemma wait_status [simp]:
  "(if wst \<noteq> NATS_OK then nats_setDefaultError wst else wst) = wst"
  by (simp add: nats_setDefaultError_def)

lemma NextMsg_wait_target:
  assumes "target \<noteq> 0" and "NextMsg_wait t ws st target s = Inr (st', s')"
  shows "\<exists>k\<le>length ws.
           trace s' = trace s @ replicate k (CondTimedWait target)
         \<and> (\<forall>j. Suc j < k \<longrightarrow> fst (snd (ws ! j)) \<noteq> NATS_TIMEOUT)
         \<and> (if k = 0 then st' = st \<and> s' = s
             else st' = fst (snd (ws ! (k - 1)))
                  \<and> msgList_count s = 0 \<and> st \<noteq> NATS_TIMEOUT \<and> \<not> closed s)
         \<and> \<not> (msgList_count s' = 0 \<and> st' \<noteq> NATS_TIMEOUT \<and> \<not> closed s')"
  using assms(2)
proof (induction ws arbitrary: st s)
  case Nil
  then show ?case by (auto split: if_splits)
next
  case (Cons w ws)
  obtain now wst e where w: "w = (now, wst, e)" by (cases w)
  show ?case
  proof (cases "msgList_count s = 0 \<and> st \<noteq> NATS_TIMEOUT \<and> \<not> closed s")
    case False
    with Cons.prems w have "st' = st" "s' = s" by auto
    with False show ?thesis by (intro exI [of _ 0]) simp
  next
    case True
    let ?s2 = "interfere e (log [CondTimedWait target] s)"
    from Cons.prems w True assms(1)
    have "NextMsg_wait t ws wst target ?s2 = Inr (st', s')"
      by (simp add: Let_def nats_setDefaultError_def)
    from Cons.IH [OF this] obtain k where kl: "k \<le> length ws"
      and tr: "trace s' = trace ?s2 @ replicate k (CondTimedWait target)"
      and nt: "\<forall>j. Suc j < k \<longrightarrow> fst (snd (ws ! j)) \<noteq> NATS_TIMEOUT"
      and fin: "if k = 0 then st' = wst \<and> s' = ?s2
                else st' = fst (snd (ws ! (k - 1)))
                     \<and> msgList_count ?s2 = 0 \<and> wst \<noteq> NATS_TIMEOUT \<and> \<not> closed ?s2"
      and ex: "\<not> (msgList_count s' = 0 \<and> st' \<noteq> NATS_TIMEOUT \<and> \<not> closed s')" by blast
    have 1: "Suc k \<le> length (w # ws)" using kl by simp
    have 2: "trace s' = trace s @ replicate (Suc k) (CondTimedWait target)" using tr by simp
    have 3: "\<forall>j. Suc j < Suc k \<longrightarrow> fst (snd ((w # ws) ! j)) \<noteq> NATS_TIMEOUT"
    proof (intro allI impI)
      fix j assume j: "Suc j < Suc k"
      show "fst (snd ((w # ws) ! j)) \<noteq> NATS_TIMEOUT"
      proof (cases j)
        case 0
        with j have "k \<noteq> 0" by simp
        with fin have "wst \<noteq> NATS_TIMEOUT" by simp
        with 0 w show ?thesis by simp
      next
        case (Suc j')
        with j nt show ?thesis by simp
      qed
    qed
    have 4: "st' = fst (snd ((w # ws) ! (Suc k - 1)))"
      using fin w by (cases k) simp_all
    from 1 2 3 4 True ex show ?thesis
      by (intro exI [of _ "Suc k"]) simp
  qed
qed

lemma NextMsg_wait_first:
  assumes "NextMsg_wait t ws st 0 s = Inr (st', s')" and "\<forall>w\<in>set ws. fst w + t \<noteq> 0"
  shows "(if msgList_count s = 0 \<and> st \<noteq> NATS_TIMEOUT \<and> \<not> closed s
          then \<exists>k<length ws.
                 trace s' = trace s @ [Now] @ replicate (Suc k) (CondTimedWait (fst (hd ws) + t))
               \<and> (\<forall>j<k. fst (snd (ws ! j)) \<noteq> NATS_TIMEOUT)
               \<and> st' = fst (snd (ws ! k))
          else s' = s \<and> st' = st)
       \<and> \<not> (msgList_count s' = 0 \<and> st' \<noteq> NATS_TIMEOUT \<and> \<not> closed s')"
proof (cases "msgList_count s = 0 \<and> st \<noteq> NATS_TIMEOUT \<and> \<not> closed s")
  case False
  with assms(1) have "s' = s \<and> st' = st" by (simp add: NextMsg_wait_ready)
  with False show ?thesis by auto
next
  case True
  with assms(1) obtain w ws' where ws: "ws = w # ws'" by (cases ws) auto
  obtain now wst e where w: "w = (now, wst, e)" by (cases w)
  let ?s2 = "interfere e (log [CondTimedWait (now + t)] (log [Now] s))"
  from assms(2) ws w have nz: "now + t \<noteq> 0" by simp
  from assms(1) ws w True
  have "NextMsg_wait t ws' wst (now + t) ?s2 = Inr (st', s')"
    by (simp add: Let_def nats_setDefaultError_def)
  from NextMsg_wait_target [OF nz this] obtain k where kl: "k \<le> length ws'"
    and tr: "trace s' = trace ?s2 @ replicate k (CondTimedWait (now + t))"
    and nt: "\<forall>j. Suc j < k \<longrightarrow> fst (snd (ws' ! j)) \<noteq> NATS_TIMEOUT"
    and fin: "if k = 0 then st' = wst \<and> s' = ?s2
              else st' = fst (snd (ws' ! (k - 1)))
                   \<and> msgList_count ?s2 = 0 \<and> wst \<noteq> NATS_TIMEOUT \<and> \<not> closed ?s2"
    and ex: "\<not> (msgList_count s' = 0 \<and> st' \<noteq> NATS_TIMEOUT \<and> \<not> closed s')" by blast
  have 1: "k < length ws" using kl ws by simp
  have 2: "trace s' = trace s @ [Now] @ replicate (Suc k) (CondTimedWait (fst (hd ws) + t))"
    using tr by (simp add: ws w)
  have 3: "\<forall>j<k. fst (snd (ws ! j)) \<noteq> NATS_TIMEOUT"
  proof (intro allI impI)
    fix j assume j: "j < k"
    show "fst (snd (ws ! j)) \<noteq> NATS_TIMEOUT"
    proof (cases j)
      case 0
      with j have "k \<noteq> 0" by simp
      with fin have "wst \<noteq> NATS_TIMEOUT" by simp
      with 0 ws w show ?thesis by simp
    next
      case (Suc j')
      with j nt ws show ?thesis by simp
    qed
  qed
  have 4: "st' = fst (snd (ws ! k))"
    using fin ws w by (cases k) simp_all
  from 1 2 3 4 have "\<exists>k<length ws.
                 trace s' = trace s @ [Now] @ replicate (Suc k) (CondTimedWait (fst (hd ws) + t))
               \<and> (\<forall>j<k. fst (snd (ws ! j)) \<noteq> NATS_TIMEOUT)
               \<and> st' = fst (snd (ws ! k))" by blast
  with ex True show ?thesis by simp
qed

subsection \<open>Release and creation\<close>




lemma natsSub_close_fields:
  "closed (natsSub_close s cc)" "connClosed (natsSub_close s cc) = cc"
  "max_sub (natsSub_close s cc) = max_sub s" "delivered (natsSub_close s cc) = delivered s"
  "inWait (natsSub_close s cc) = inWait s"
  "trace (natsSub_close s cc)
     = trace s @ [Lock] @ (if signalTimer s \<noteq> None then [TimerStop] else []) @ [CondBroadcast, Unlock]"
  "(natsSub_close s cc)\<lparr>trace := trace s\<rparr> = s\<lparr>closed := True, connClosed := cc\<rparr>"
  by (simp_all add: natsSub_close_def Let_def log_def)

section \<open>Properties of the subscription\<close>

subsection \<open>The delivery worker\<close>

text \<open>
  C1. Take an iteration of the worker of an asynchronous subscription (handler \<open>cb\<close>) whose
  wait ends with the subscription \<open>s1\<close> not closed and holding the messages \<open>m # ms\<close>. The
  iteration takes \<open>m\<close>, the oldest message, off the list, which then holds \<open>ms\<close>, and
  counts it in \<open>delivered\<close>. After the unlock the handler is called on \<open>m\<close> exactly when the
  cap is 0 or the new \<open>delivered\<close> is at most the cap. Exactly when the cap is positive and
  the new \<open>delivered\<close> has reached it, the connection is asked to remove the subscription
  and the loop is left; otherwise the loop goes on with the next iteration. A message taken
  beyond the cap is gone from the list and no handler is called for it.
\<close>

theorem worker_iteration_delivers_head:
  assumes "deliverMsgs_wait es ((log [Lock] s)\<lparr>inWait := inWait s + 1\<rparr>) = Inr (s1, es1)"
    and "\<not> closed s1" and "msgList_wf s1 (m # ms)"
  shows "\<exists>c s'. deliverMsgs_iter (Some cb) es s = Inr (c, s', es1)
     \<and> (c = Break) = (max_sub s1 > 0 \<and> delivered s1 + 1 \<ge> max_sub s1)
     \<and> delivered s' = delivered s1 + 1
     \<and> msgList_wf s' ms
     \<and> msgList_count s' = msgList_count s1 - 1
     \<and> new_events s1 s' =
          [Unlock]
          @ (if max_sub s1 = 0 \<or> delivered s1 + 1 \<le> max_sub s1 then [Handler cb m] else [])
          @ (if max_sub s1 > 0 \<and> delivered s1 + 1 \<ge> max_sub s1 then [RemoveSubscription] else [])
     \<and> deliverMsgs_loop (Some cb) es s =
          (if max_sub s1 > 0 \<and> delivered s1 + 1 \<ge> max_sub s1 then Inr (s', es1)
           else (case es1 of [] \<Rightarrow> Inl OracleEnd
                 | e # es2 \<Rightarrow> deliverMsgs_loop (Some cb) es2 (interfere e s')))"
proof -
  let ?cap = "max_sub s1 > 0 \<and> delivered s1 + 1 \<ge> max_sub s1"
  let ?evs = "[Unlock]
          @ (if max_sub s1 = 0 \<or> delivered s1 + 1 \<le> max_sub s1 then [Handler cb m] else [])
          @ (if ?cap then [RemoveSubscription] else [])"
  let ?c = "if ?cap then Break else Continue"
  let ?s' = "log ?evs (pop_head m (s1\<lparr>inWait := inWait s1 - 1, delivered := delivered s1 + 1\<rparr>))"
  have hd: "msgList_head s1 = Some m" using assms(3) by (rule msgList_wf_head)
  have body: "deliverMsgs_body (Some cb) s1 = Inr (?c, ?s')"
    using deliverMsgs_body_pop [OF assms(2) hd] .
  have iter: "deliverMsgs_iter (Some cb) es s = Inr (?c, ?s', es1)"
    by (simp only: deliverMsgs_iter_def assms(1) body sum.case prod.case)
  have "msgList_wf (s1\<lparr>inWait := inWait s1 - 1, delivered := delivered s1 + 1\<rparr>) (m # ms)"
    using assms(3) by (simp add: msgList_wf_def)
  then have wf: "msgList_wf ?s' ms"
    by (simp only: msgList_wf_log msgList_wf_pop)
  have d: "delivered ?s' = delivered s1 + 1" by (simp add: log_def pop_head_def)
  have cnt: "msgList_count ?s' = msgList_count s1 - 1" by (simp add: log_def pop_head_def)
  have ev: "new_events s1 ?s' = ?evs"
    by (rule new_events_append) (simp add: log_def pop_head_def)
  have loop: "deliverMsgs_loop (Some cb) es s =
          (if ?cap then Inr (?s', es1)
           else (case es1 of [] \<Rightarrow> Inl OracleEnd
                 | e # es2 \<Rightarrow> deliverMsgs_loop (Some cb) es2 (interfere e ?s')))"
    by (subst deliverMsgs_loop.simps) (simp add: iter split: list.splits)
  have c: "(?c = Break) = ?cap" by simp
  from iter c d wf cnt ev loop show ?thesis by blast
qed

theorem worker_iteration_delivers_head_witness:
  "(case deliverMsgs_loop (Some 7) [holding [5, 6]] worker_start of
      Inl f \<Rightarrow> False
    | Inr (s', es') \<Rightarrow>
        es' = [] \<and> delivered s' = 2 \<and> msgList_wf s' [6]
        \<and> new_events worker_woken s' = [Unlock, Handler 7 5, RemoveSubscription])"
proof -
  have h1: "deliverMsgs_wait [holding [5, 6]]
              ((log [Lock] worker_start)\<lparr>inWait := inWait worker_start + 1\<rparr>)
      = Inr (worker_woken, [])"
    by (simp add: example_defs)
  have h2: "\<not> closed worker_woken" by (simp add: example_defs)
  have h3: "msgList_wf worker_woken [5, 6]"
    by (simp add: msgList_wf_def example_defs)
  have cap: "max_sub worker_woken > 0 \<and> delivered worker_woken + 1 \<ge> max_sub worker_woken"
    "max_sub worker_woken = 2" "delivered worker_woken = 1"
    by (simp_all add: example_defs)
  from worker_iteration_delivers_head [OF h1 h2 h3, of 7] cap show ?thesis
    by auto
qed

subsection \<open>The synchronous fetch\<close>

text \<open>
  C2. \<open>natsSubscription_NextMsg\<close> checks in this order: a subscription whose connection is
  closed gives \<open>NATS_CONNECTION_CLOSED\<close>; else a closed one gives
  \<open>NATS_MAX_DELIVERED_MSGS\<close> when the cap is positive and reached, and
  \<open>NATS_INVALID_SUBSCRIPTION\<close> otherwise; else one with a handler gives
  \<open>NATS_ILLEGAL_STATE\<close>; else a set \<open>slowConsumer\<close> flag is cleared and the call gives
  \<open>NATS_SLOW_CONSUMER\<close>, and the next call on the subscription so left goes past the four
  checks to the fetch. None of these calls changes any other field or hands out a message.
\<close>

theorem NextMsg_precondition_order:
  "(connClosed s \<longrightarrow>
      natsSubscription_NextMsg True (Some s) t ws
        = Inr (NATS_CONNECTION_CLOSED, None, Some (log [Lock, Unlock] s)))
   \<and> (\<not> connClosed s \<and> closed s \<longrightarrow>
      natsSubscription_NextMsg True (Some s) t ws
        = Inr (if max_sub s > 0 \<and> delivered s \<ge> max_sub s
               then NATS_MAX_DELIVERED_MSGS else NATS_INVALID_SUBSCRIPTION,
               None, Some (log [Lock, Unlock] s)))
   \<and> (\<not> connClosed s \<and> \<not> closed s \<and> msgCb s \<noteq> None \<longrightarrow>
      natsSubscription_NextMsg True (Some s) t ws
        = Inr (NATS_ILLEGAL_STATE, None, Some (log [Lock, Unlock] s)))
   \<and> (\<not> connClosed s \<and> \<not> closed s \<and> msgCb s = None \<and> slowConsumer s \<longrightarrow>
      natsSubscription_NextMsg True (Some s) t ws
        = Inr (NATS_SLOW_CONSUMER, None, Some (log [Lock, Unlock] (s\<lparr>slowConsumer := False\<rparr>)))
      \<and> natsSubscription_NextMsg True (Some (log [Lock, Unlock] (s\<lparr>slowConsumer := False\<rparr>))) t' ws'
        = NextMsg_fetch (log [Lock] (log [Lock, Unlock] (s\<lparr>slowConsumer := False\<rparr>))) t' ws')"
  by (simp add: natsSubscription_NextMsg_def log_def Let_def nats_setDefaultError_def)

theorem NextMsg_precondition_order_witness:
  "natsSubscription_NextMsg True (Some (sub_sync\<lparr>connClosed := True, closed := True\<rparr>)) 0 []
     = Inr (NATS_CONNECTION_CLOSED, None,
            Some (log [Lock, Unlock] (sub_sync\<lparr>connClosed := True, closed := True\<rparr>)))
   \<and> natsSubscription_NextMsg True (Some (sub_sync\<lparr>closed := True, max_sub := 2, delivered := 2\<rparr>)) 0 []
     = Inr (NATS_MAX_DELIVERED_MSGS, None,
            Some (log [Lock, Unlock] (sub_sync\<lparr>closed := True, max_sub := 2, delivered := 2\<rparr>)))
   \<and> natsSubscription_NextMsg True (Some (sub_sync\<lparr>closed := True\<rparr>)) 0 []
     = Inr (NATS_INVALID_SUBSCRIPTION, None, Some (log [Lock, Unlock] (sub_sync\<lparr>closed := True\<rparr>)))
   \<and> natsSubscription_NextMsg True (Some sub_async) 0 []
     = Inr (NATS_ILLEGAL_STATE, None, Some (log [Lock, Unlock] sub_async))
   \<and> natsSubscription_NextMsg True (Some (sub_sync\<lparr>slowConsumer := True\<rparr>)) 0 []
     = Inr (NATS_SLOW_CONSUMER, None, Some (log [Lock, Unlock] (sub_sync\<lparr>slowConsumer := False\<rparr>)))
   \<and> natsSubscription_NextMsg True (Some (log [Lock, Unlock] (sub_sync\<lparr>slowConsumer := False\<rparr>))) 0 []
     = Inr (NATS_TIMEOUT, None, Some (log [Lock, Unlock, Lock, Unlock] sub_sync))"
proof -
  let ?a = "sub_sync\<lparr>connClosed := True, closed := True\<rparr>"
  let ?b = "sub_sync\<lparr>closed := True, max_sub := 2, delivered := 2\<rparr>"
  let ?c = "sub_sync\<lparr>closed := True\<rparr>"
  let ?e = "sub_sync\<lparr>slowConsumer := True\<rparr>"
  have 1: "connClosed ?a" by simp
  have 2: "\<not> connClosed ?b \<and> closed ?b" by (simp add: sub_sync_def calloc_sub_def)
  have 3: "\<not> connClosed ?c \<and> closed ?c" by (simp add: sub_sync_def calloc_sub_def)
  have 4: "\<not> connClosed sub_async \<and> \<not> closed sub_async \<and> msgCb sub_async \<noteq> None"
    by (simp add: sub_async_def sub_sync_def calloc_sub_def)
  have 5: "\<not> connClosed ?e \<and> \<not> closed ?e \<and> msgCb ?e = None \<and> slowConsumer ?e"
    by (simp add: sub_sync_def calloc_sub_def)
  have f: "NextMsg_fetch (log [Lock] (log [Lock, Unlock] (sub_sync\<lparr>slowConsumer := False\<rparr>))) 0 []
     = Inr (NATS_TIMEOUT, None, Some (log [Lock, Unlock, Lock, Unlock] sub_sync))"
    by (simp add: NextMsg_fetch_def NextMsg_deliver_def log_def sub_sync_def calloc_sub_def
        nats_setDefaultError_def NATS_UPDATE_ERR_STACK_def)
  have m: "max_sub ?b > 0 \<and> delivered ?b \<ge> max_sub ?b" by simp
  have n: "\<not> (max_sub ?c > 0 \<and> delivered ?c \<ge> max_sub ?c)"
    by (simp add: sub_sync_def calloc_sub_def)
  show ?thesis
    using NextMsg_precondition_order [of ?a 0 "[]"] 1
      NextMsg_precondition_order [of ?b 0 "[]"] 2 m
      NextMsg_precondition_order [of ?c 0 "[]"] 3 n
      NextMsg_precondition_order [of sub_async 0 "[]"] 4
      NextMsg_precondition_order [of ?e 0 "[]" 0 "[]"] 5 f
    by simp
qed

text \<open>
  C3, as the code has it. For a synchronous subscription that passes the four checks:
  with a timeout of 0 or less the call does not wait (its result does not depend on the
  wake-ups and it logs nothing but lock, unlock and a removal) and gives \<open>NATS_TIMEOUT\<close>
  exactly when \<open>count\<close> is 0. With a positive timeout the clock is read only if the call
  has to wait: not at all when the list is not empty on entry, and otherwise once, before
  the first wait, and every wait of the call uses that one deadline, the first clock reading
  plus the timeout in 64-bit arithmetic (for clock readings \<open>now\<close> with
  \<open>now + timeout \<noteq> 0\<close> there). The call waits exactly while the list is empty, the last
  wait did not time out and the subscription is not closed: every wait but the last
  returned a status other than \<open>NATS_TIMEOUT\<close>, the status after the loop is the one the
  last wait returned, and then the list is not empty, or that status is \<open>NATS_TIMEOUT\<close>,
  or the subscription is closed. Turn by turn: the loop returns without waiting when the
  condition fails, and otherwise waits once and goes on with what the wait returned. In
  particular a first wait that times out is the only one, and the call gives
  \<open>NATS_TIMEOUT\<close> and no message. If the subscription is closed after the wait, the call
  gives \<open>NATS_INVALID_SUBSCRIPTION\<close> and no message.
\<close>

theorem NextMsg_wait_policy_amended:
  assumes "\<not> connClosed s" and "\<not> closed s" and "msgCb s = None" and "\<not> slowConsumer s"
  shows "(sint t \<le> 0 \<longrightarrow>
            natsSubscription_NextMsg True (Some s) t ws
              = NextMsg_deliver (if msgList_count s = 0 then NATS_TIMEOUT else NATS_OK) (log [Lock] s)
          \<and> ((\<exists>r s'. natsSubscription_NextMsg True (Some s) t ws = Inr (NATS_TIMEOUT, r, s'))
               = (msgList_count s = 0))
          \<and> (msgList_count s = 0 \<longrightarrow>
               natsSubscription_NextMsg True (Some s) t ws
                 = Inr (NATS_TIMEOUT, None, Some (log [Lock, Unlock] s)))
          \<and> (natsSubscription_NextMsg True (Some s) t ws = Inr (st', r', Some s') \<longrightarrow>
               new_events s s' = [Lock, Unlock] \<or> new_events s s' = [Lock, Unlock, RemoveSubscription]))
       \<and> (0 < sint t \<and> (\<forall>w\<in>set ws. fst w + t \<noteq> 0)
            \<and> NextMsg_wait t ws NATS_OK 0 ((log [Lock] s)\<lparr>inWait := inWait s + 1\<rparr>) = Inr (st1, s1) \<longrightarrow>
            \<not> (msgList_count s1 = 0 \<and> st1 \<noteq> NATS_TIMEOUT \<and> \<not> closed s1)
          \<and> (if msgList_count s = 0
              then \<exists>k<length ws.
                     new_events s s1 = [Lock, Now] @ replicate (Suc k) (CondTimedWait (fst (hd ws) + t))
                   \<and> (\<forall>j<k. fst (snd (ws ! j)) \<noteq> NATS_TIMEOUT)
                   \<and> st1 = fst (snd (ws ! k))
              else new_events s s1 = [Lock] \<and> st1 = NATS_OK)
          \<and> natsSubscription_NextMsg True (Some s) t ws
              = NextMsg_deliver (if closed s1 then NATS_INVALID_SUBSCRIPTION else st1)
                  (s1\<lparr>inWait := inWait s1 - 1\<rparr>)
          \<and> (closed s1 \<longrightarrow>
               natsSubscription_NextMsg True (Some s) t ws
                 = Inr (NATS_INVALID_SUBSCRIPTION, None, Some (log [Unlock] (s1\<lparr>inWait := inWait s1 - 1\<rparr>)))))
       \<and> (\<not> (msgList_count u = 0 \<and> st \<noteq> NATS_TIMEOUT \<and> \<not> closed u) \<longrightarrow>
            NextMsg_wait t ws st target u = Inr (st, u))
       \<and> (msgList_count u = 0 \<and> st \<noteq> NATS_TIMEOUT \<and> \<not> closed u \<longrightarrow>
            NextMsg_wait t ((now, wst, e) # ws) st target u
              = NextMsg_wait t ws wst (if target = 0 then now + t else target)
                  (interfere e
                     (log (if target = 0 then [Now, CondTimedWait (now + t)]
                           else [CondTimedWait target]) u)))
       \<and> (0 < sint t \<and> msgList_count s = 0 \<longrightarrow>
            natsSubscription_NextMsg True (Some s) t ((now, NATS_TIMEOUT, e) # ws)
              = Inr (if closed (interfere e (log [Lock, Now, CondTimedWait (now + t)]
                                               (s\<lparr>inWait := inWait s + 1\<rparr>)))
                     then NATS_INVALID_SUBSCRIPTION else NATS_TIMEOUT,
                     None,
                     Some (log [Unlock]
                       ((interfere e (log [Lock, Now, CondTimedWait (now + t)]
                                        (s\<lparr>inWait := inWait s + 1\<rparr>)))
                        \<lparr>inWait := inWait (interfere e (log [Lock, Now, CondTimedWait (now + t)]
                                                         (s\<lparr>inWait := inWait s + 1\<rparr>))) - 1\<rparr>))))"
proof (intro conjI impI)
  note pass = NextMsg_checks_pass [OF assms]
  assume t: "sint t \<le> 0"
  then have nt: "\<not> 0 < sint t" by simp
  show eq: "natsSubscription_NextMsg True (Some s) t ws
              = NextMsg_deliver (if msgList_count s = 0 then NATS_TIMEOUT else NATS_OK) (log [Lock] s)"
    using nt by (simp add: pass NextMsg_fetch_def nats_setDefaultError_def log_def)
  show "(\<exists>r s'. natsSubscription_NextMsg True (Some s) t ws = Inr (NATS_TIMEOUT, r, s'))
               = (msgList_count s = 0)"
    by (simp add: eq NextMsg_deliver_error NextMsg_deliver_not_timeout)
  show "natsSubscription_NextMsg True (Some s) t ws
                 = Inr (NATS_TIMEOUT, None, Some (log [Lock, Unlock] s))" if "msgList_count s = 0"
    using that by (simp add: eq NextMsg_deliver_error) (simp add: log_def)
  show "new_events s s' = [Lock, Unlock] \<or> new_events s s' = [Lock, Unlock, RemoveSubscription]"
    if "natsSubscription_NextMsg True (Some s) t ws = Inr (st', r', Some s')"
    using NextMsg_deliver_events [OF that [unfolded eq]] by (auto simp: new_events_def)
next
  note pass = NextMsg_checks_pass [OF assms]
  assume h: "0 < sint t \<and> (\<forall>w\<in>set ws. fst w + t \<noteq> 0)
            \<and> NextMsg_wait t ws NATS_OK 0 ((log [Lock] s)\<lparr>inWait := inWait s + 1\<rparr>) = Inr (st1, s1)"
  let ?s0 = "(log [Lock] s)\<lparr>inWait := inWait s + 1\<rparr>"
  from h have t: "0 < sint t" and w: "NextMsg_wait t ws NATS_OK 0 ?s0 = Inr (st1, s1)"
    and nz: "\<forall>w\<in>set ws. fst w + t \<noteq> 0" by simp_all
  have s0: "msgList_count ?s0 = msgList_count s" "\<not> closed ?s0" "trace ?s0 = trace s @ [Lock]"
    using assms(2) by (simp_all add: log_def)
  note first = NextMsg_wait_first [OF w nz]
  from first show "\<not> (msgList_count s1 = 0 \<and> st1 \<noteq> NATS_TIMEOUT \<and> \<not> closed s1)" by blast
  show "if msgList_count s = 0
        then \<exists>k<length ws.
               new_events s s1 = [Lock, Now] @ replicate (Suc k) (CondTimedWait (fst (hd ws) + t))
             \<and> (\<forall>j<k. fst (snd (ws ! j)) \<noteq> NATS_TIMEOUT)
             \<and> st1 = fst (snd (ws ! k))
        else new_events s s1 = [Lock] \<and> st1 = NATS_OK"
  proof (cases "msgList_count s = 0")
    case True
    with first s0 obtain k where k: "k < length ws"
      and tr: "trace s1 = trace ?s0 @ [Now] @ replicate (Suc k) (CondTimedWait (fst (hd ws) + t))"
      and nt: "\<forall>j<k. fst (snd (ws ! j)) \<noteq> NATS_TIMEOUT"
      and st: "st1 = fst (snd (ws ! k))" by auto
    from tr have "new_events s s1 = [Lock, Now] @ replicate (Suc k) (CondTimedWait (fst (hd ws) + t))"
      by (simp add: new_events_def s0)
    with k nt st have "\<exists>k<length ws.
               new_events s s1 = [Lock, Now] @ replicate (Suc k) (CondTimedWait (fst (hd ws) + t))
             \<and> (\<forall>j<k. fst (snd (ws ! j)) \<noteq> NATS_TIMEOUT)
             \<and> st1 = fst (snd (ws ! k))" by blast
    with True show ?thesis by simp
  next
    case False
    with first s0 have "s1 = ?s0" "st1 = NATS_OK" by auto
    with False show ?thesis by (simp add: new_events_def log_def)
  qed
  have wl: "NextMsg_wait t ws NATS_OK 0 ((log [Lock] s)\<lparr>inWait := inWait (log [Lock] s) + 1\<rparr>)
      = Inr (st1, s1)"
    using w by (simp add: log_def)
  show eq: "natsSubscription_NextMsg True (Some s) t ws
              = NextMsg_deliver (if closed s1 then NATS_INVALID_SUBSCRIPTION else st1)
                  (s1\<lparr>inWait := inWait s1 - 1\<rparr>)"
    by (simp only: pass NextMsg_fetch_def wl t if_True sum.case prod.case Let_def)
       (simp add: nats_setDefaultError_def)
  show "natsSubscription_NextMsg True (Some s) t ws
          = Inr (NATS_INVALID_SUBSCRIPTION, None, Some (log [Unlock] (s1\<lparr>inWait := inWait s1 - 1\<rparr>)))"
    if "closed s1"
    using that by (simp add: eq NextMsg_deliver_error)
next
  assume "\<not> (msgList_count u = 0 \<and> st \<noteq> NATS_TIMEOUT \<and> \<not> closed u)"
  then show "NextMsg_wait t ws st target u = Inr (st, u)" by (rule NextMsg_wait_ready)
next
  assume "msgList_count u = 0 \<and> st \<noteq> NATS_TIMEOUT \<and> \<not> closed u"
  then show "NextMsg_wait t ((now, wst, e) # ws) st target u
              = NextMsg_wait t ws wst (if target = 0 then now + t else target)
                  (interfere e
                     (log (if target = 0 then [Now, CondTimedWait (now + t)]
                           else [CondTimedWait target]) u))"
    by (simp add: Let_def nats_setDefaultError_def log_def)
next
  note pass = NextMsg_checks_pass [OF assms]
  assume h: "0 < sint t \<and> msgList_count s = 0"
  let ?x = "interfere e (log [Lock, Now, CondTimedWait (now + t)] (s\<lparr>inWait := inWait s + 1\<rparr>))"
  let ?s0 = "(log [Lock] s)\<lparr>inWait := inWait (log [Lock] s) + 1\<rparr>"
  from h have t: "0 < sint t" and c: "msgList_count s = 0" by simp_all
  have x: "interfere e (log [CondTimedWait (now + t)] (log [Now] ?s0)) = ?x"
    by (simp add: interfere_def log_def)
  have "NextMsg_wait t ((now, NATS_TIMEOUT, e) # ws) NATS_OK 0 ?s0
      = NextMsg_wait t ws NATS_TIMEOUT (now + t) ?x"
    using c assms(2) x by (simp add: Let_def nats_setDefaultError_def) (simp add: log_def)
  also have "\<dots> = Inr (NATS_TIMEOUT, ?x)" by (simp add: NextMsg_wait_ready)
  finally have w: "NextMsg_wait t ((now, NATS_TIMEOUT, e) # ws) NATS_OK 0 ?s0
      = Inr (NATS_TIMEOUT, ?x)" .
  have f: "natsSubscription_NextMsg True (Some s) t ((now, NATS_TIMEOUT, e) # ws)
      = NextMsg_deliver
          (if closed (?x\<lparr>inWait := inWait ?x - 1\<rparr>)
           then nats_setDefaultError NATS_INVALID_SUBSCRIPTION else NATS_TIMEOUT)
          (?x\<lparr>inWait := inWait ?x - 1\<rparr>)"
    by (simp only: pass NextMsg_fetch_def w t if_True sum.case prod.case Let_def)
  show "natsSubscription_NextMsg True (Some s) t ((now, NATS_TIMEOUT, e) # ws)
          = Inr (if closed ?x then NATS_INVALID_SUBSCRIPTION else NATS_TIMEOUT, None,
                 Some (log [Unlock] (?x\<lparr>inWait := inWait ?x - 1\<rparr>)))"
    by (simp only: f) (simp add: NextMsg_deliver_error nats_setDefaultError_def del: NextMsg_wait.simps)
qed

theorem NextMsg_wait_policy_amended_witness:
  "natsSubscription_NextMsg True (Some sub_sync) 0 []
     = Inr (NATS_TIMEOUT, None, Some (log [Lock, Unlock] sub_sync))
   \<and> (\<exists>k<length [(1000::int64_t, NATS_OK, id), (2000, NATS_OK, holding [5])].
         new_events sub_sync fetch_woken
            = [Lock, Now] @ replicate (Suc k)
                (CondTimedWait (fst (hd [(1000::int64_t, NATS_OK, id), (2000, NATS_OK, holding [5])]) + 100))
         \<and> (\<forall>j<k. fst (snd ([(1000::int64_t, NATS_OK, id), (2000, NATS_OK, holding [5])] ! j))
                    \<noteq> NATS_TIMEOUT)
         \<and> NATS_OK = fst (snd ([(1000::int64_t, NATS_OK, id), (2000, NATS_OK, holding [5])] ! k)))
   \<and> natsSubscription_NextMsg True (Some sub_sync) 100 [(1000, NATS_OK, id), (2000, NATS_OK, holding [5])]
     = NextMsg_deliver NATS_OK (fetch_woken\<lparr>inWait := inWait fetch_woken - 1\<rparr>)
   \<and> natsSubscription_NextMsg True (Some sub_sync) 100
         [(1000, NATS_TIMEOUT, id), (2000, NATS_OK, holding [5])]
     = Inr (NATS_TIMEOUT, None, Some (log [Lock, Now, CondTimedWait 1100, Unlock] sub_sync))"
proof -
  let ?ws = "[(1000::int64_t, NATS_OK, id), (2000, NATS_OK, holding [5])]"
  let ?x = "interfere id (log [Lock, Now, CondTimedWait (1000 + 100)]
              (sub_sync\<lparr>inWait := inWait sub_sync + 1\<rparr>))"
  have pre: "\<not> connClosed sub_sync" "\<not> closed sub_sync" "msgCb sub_sync = None"
    "\<not> slowConsumer sub_sync"
    by (simp_all add: example_defs)
  have e: "msgList_count sub_sync = 0" by (simp add: example_defs)
  have t0: "sint (0::int64_t) \<le> 0" by simp
  have t1: "0 < sint (100::int64_t)" by simp
  have w: "0 < sint (100::int64_t) \<and> (\<forall>w\<in>set ?ws. fst w + 100 \<noteq> 0)
      \<and> NextMsg_wait 100 ?ws NATS_OK 0 ((log [Lock] sub_sync)\<lparr>inWait := inWait sub_sync + 1\<rparr>)
          = Inr (NATS_OK, fetch_woken)"
    by (simp add: fetch_woken_def example_defs Let_def)
  have c: "closed fetch_woken = False" by (simp add: fetch_woken_def example_defs)
  have cx: "closed ?x = False" by (simp add: example_defs)
  have x: "log [Unlock] (?x\<lparr>inWait := inWait ?x - 1\<rparr>)
      = log [Lock, Now, CondTimedWait 1100, Unlock] sub_sync"
    by (simp add: example_defs)
  note a = NextMsg_wait_policy_amended [OF pre, where t = 0 and ws = "[]"]
  note b = NextMsg_wait_policy_amended [OF pre, where t = 100 and ws = ?ws
      and ?st1.0 = NATS_OK and ?s1.0 = fetch_woken]
  note d = NextMsg_wait_policy_amended [OF pre, where t = 100
      and ws = "[(2000, NATS_OK, holding [5])]" and now = 1000 and e = id]
  from a e t0
  have 1: "natsSubscription_NextMsg True (Some sub_sync) 0 []
     = Inr (NATS_TIMEOUT, None, Some (log [Lock, Unlock] sub_sync))" by blast
  from b w
  have 2: "(if msgList_count sub_sync = 0
              then \<exists>k<length ?ws.
                     new_events sub_sync fetch_woken
                       = [Lock, Now] @ replicate (Suc k) (CondTimedWait (fst (hd ?ws) + 100))
                   \<and> (\<forall>j<k. fst (snd (?ws ! j)) \<noteq> NATS_TIMEOUT)
                   \<and> NATS_OK = fst (snd (?ws ! k))
              else new_events sub_sync fetch_woken = [Lock] \<and> NATS_OK = NATS_OK)"
    and 3: "natsSubscription_NextMsg True (Some sub_sync) 100 ?ws
              = NextMsg_deliver (if closed fetch_woken then NATS_INVALID_SUBSCRIPTION else NATS_OK)
                  (fetch_woken\<lparr>inWait := inWait fetch_woken - 1\<rparr>)"
    by (blast+)
  from 2 e have k2: "\<exists>k<length ?ws.
                     new_events sub_sync fetch_woken
                       = [Lock, Now] @ replicate (Suc k) (CondTimedWait (fst (hd ?ws) + 100))
                   \<and> (\<forall>j<k. fst (snd (?ws ! j)) \<noteq> NATS_TIMEOUT)
                   \<and> NATS_OK = fst (snd (?ws ! k))"
    by (simp only: if_True simp_thms)
  from 3 have k3: "natsSubscription_NextMsg True (Some sub_sync) 100 ?ws
              = NextMsg_deliver NATS_OK (fetch_woken\<lparr>inWait := inWait fetch_woken - 1\<rparr>)"
    unfolding c if_False .
  from d t1 e
  have 4: "natsSubscription_NextMsg True (Some sub_sync) 100
             [(1000, NATS_TIMEOUT, id), (2000, NATS_OK, holding [5])]
     = Inr (if closed ?x then NATS_INVALID_SUBSCRIPTION else NATS_TIMEOUT, None,
            Some (log [Unlock] (?x\<lparr>inWait := inWait ?x - 1\<rparr>)))"
    by blast
  then have k4: "natsSubscription_NextMsg True (Some sub_sync) 100
             [(1000, NATS_TIMEOUT, id), (2000, NATS_OK, holding [5])]
     = Inr (NATS_TIMEOUT, None, Some (log [Lock, Now, CondTimedWait 1100, Unlock] sub_sync))"
    unfolding cx if_False x .
  from 1 k2 k3 k4 show ?thesis by (intro conjI)
qed

text \<open>
  C3 as the design document words it has the deadline computed exactly once whenever the
  timeout is positive. On a subscription that holds a message the fetch with timeout 5
  returns the message at once: its whole trace is a lock and an unlock, and the clock is
  never read.
\<close>

theorem NextMsg_deadline_not_computed:
  "result_status (natsSubscription_NextMsg True (Some fetch_one) 5 [(1000, NATS_TIMEOUT, id)])
     = Some NATS_OK
   \<and> result_trace (natsSubscription_NextMsg True (Some fetch_one) 5 [(1000, NATS_TIMEOUT, id)])
     = [Lock, Unlock]
   \<and> count_list (result_trace (natsSubscription_NextMsg True (Some fetch_one) 5 [(1000, NATS_TIMEOUT, id)])) Now
     \<noteq> 1"
proof -
  have "natsSubscription_NextMsg True (Some fetch_one) 5 [(1000, NATS_TIMEOUT, id)]
      = Inr (NATS_OK, Some 5,
             Some (log [Unlock] (pop_head 5 ((log [Lock] fetch_one)\<lparr>delivered := 1\<rparr>))))"
    by (simp add: natsSubscription_NextMsg_def NextMsg_fetch_def NextMsg_deliver_def Let_def
        nats_setDefaultError_def NATS_UPDATE_ERR_STACK_def fetch_one_def example_defs pop_head_def)
  then show ?thesis
    by (simp add: result_status_def result_trace_def pop_head_def fetch_one_def example_defs)
qed





subsection \<open>Close\<close>

text \<open>
  C5. \<open>natsSub_close\<close> sets \<open>closed\<close>, sets \<open>connClosed\<close> to its argument, and changes no
  other field; under the lock it stops the signal timer, if the subscription has one, and
  broadcasts the condition. On the closed subscription the next iteration of the worker
  leaves the loop without taking a message, and a fetch gives
  \<open>NATS_CONNECTION_CLOSED\<close>, \<open>NATS_MAX_DELIVERED_MSGS\<close> or \<open>NATS_INVALID_SUBSCRIPTION\<close> and
  no message. A worker that waits on the empty list and is woken by the close leaves its
  loop; a fetch that waits on the empty list and is woken by the close gives
  \<open>NATS_INVALID_SUBSCRIPTION\<close>.
\<close>

theorem close_wakes_and_terminates:
  "closed (natsSub_close s cc) \<and> connClosed (natsSub_close s cc) = cc
   \<and> (natsSub_close s cc)\<lparr>trace := trace s\<rparr> = s\<lparr>closed := True, connClosed := cc\<rparr>
   \<and> new_events s (natsSub_close s cc)
        = [Lock] @ (if signalTimer s \<noteq> None then [TimerStop] else []) @ [CondBroadcast, Unlock]
   \<and> deliverMsgs_loop mcb es (natsSub_close s cc) = Inr (log [Lock, Unlock] (natsSub_close s cc), es)
   \<and> natsSubscription_NextMsg True (Some (natsSub_close s cc)) t ws
        = Inr (if cc then NATS_CONNECTION_CLOSED
               else if max_sub s > 0 \<and> delivered s \<ge> max_sub s then NATS_MAX_DELIVERED_MSGS
               else NATS_INVALID_SUBSCRIPTION,
               None, Some (log [Lock, Unlock] (natsSub_close s cc)))
   \<and> (msgList_count u = 0 \<and> \<not> closed u \<longrightarrow>
        deliverMsgs_loop mcb ((\<lambda>x. natsSub_close x cc) # es) u
          = Inr (log [Unlock]
                   ((interfere (\<lambda>x. natsSub_close x cc)
                       (log [Lock, CondWait] (u\<lparr>inWait := inWait u + 1\<rparr>)))\<lparr>inWait := inWait u\<rparr>), es))
   \<and> (msgList_count u = 0 \<and> \<not> closed u \<and> 0 < sint t \<longrightarrow>
        NextMsg_fetch u t ((now, wst, \<lambda>x. natsSub_close x cc) # ws)
          = Inr (NATS_INVALID_SUBSCRIPTION, None,
                 Some (log [Unlock]
                   ((interfere (\<lambda>x. natsSub_close x cc)
                       (log [Now, CondTimedWait (now + t)] (u\<lparr>inWait := inWait u + 1\<rparr>)))\<lparr>inWait := inWait u\<rparr>))))"
proof (intro conjI impI)
  show "closed (natsSub_close s cc)" "connClosed (natsSub_close s cc) = cc"
    "(natsSub_close s cc)\<lparr>trace := trace s\<rparr> = s\<lparr>closed := True, connClosed := cc\<rparr>"
    by (simp_all add: natsSub_close_fields)
  show "new_events s (natsSub_close s cc)
        = [Lock] @ (if signalTimer s \<noteq> None then [TimerStop] else []) @ [CondBroadcast, Unlock]"
    by (rule new_events_append) (simp add: natsSub_close_fields)
  show "deliverMsgs_loop mcb es (natsSub_close s cc) = Inr (log [Lock, Unlock] (natsSub_close s cc), es)"
    by (rule deliverMsgs_loop_closed) (simp add: natsSub_close_fields)
  show "natsSubscription_NextMsg True (Some (natsSub_close s cc)) t ws
        = Inr (if cc then NATS_CONNECTION_CLOSED
               else if max_sub s > 0 \<and> delivered s \<ge> max_sub s then NATS_MAX_DELIVERED_MSGS
               else NATS_INVALID_SUBSCRIPTION,
               None, Some (log [Lock, Unlock] (natsSub_close s cc)))"
    by (simp add: natsSubscription_NextMsg_def natsSub_close_fields log_def Let_def
        nats_setDefaultError_def)
next
  assume h: "msgList_count u = 0 \<and> \<not> closed u"
  let ?w = "interfere (\<lambda>x. natsSub_close x cc) (log [Lock, CondWait] (u\<lparr>inWait := inWait u + 1\<rparr>))"
  have cw: "closed ?w" "inWait ?w = inWait u + 1"
    by (simp_all add: interfere_def natsSub_close_fields log_def)
  have "deliverMsgs_wait ((\<lambda>x. natsSub_close x cc) # es) ((log [Lock] u)\<lparr>inWait := inWait u + 1\<rparr>)
      = deliverMsgs_wait es ?w"
    using h by (simp add: log_def)
  also have "\<dots> = Inr (?w, es)" using cw by (simp add: deliverMsgs_wait_ready)
  finally have w: "deliverMsgs_wait ((\<lambda>x. natsSub_close x cc) # es)
        ((log [Lock] u)\<lparr>inWait := inWait u + 1\<rparr>)
      = Inr (?w, es)" .
  have b: "deliverMsgs_body mcb ?w = Inr (Break, log [Unlock] (?w\<lparr>inWait := inWait u\<rparr>))"
    using cw by (simp add: deliverMsgs_body_def)
  show "deliverMsgs_loop mcb ((\<lambda>x. natsSub_close x cc) # es) u
          = Inr (log [Unlock] (?w\<lparr>inWait := inWait u\<rparr>), es)"
    by (subst deliverMsgs_loop.simps) (simp only: deliverMsgs_iter_def w b sum.case prod.case ctl.case)
next
  assume h: "msgList_count u = 0 \<and> \<not> closed u \<and> 0 < sint t"
  let ?w = "interfere (\<lambda>x. natsSub_close x cc)
              (log [Now, CondTimedWait (now + t)] (u\<lparr>inWait := inWait u + 1\<rparr>))"
  let ?st = "if wst \<noteq> NATS_OK then nats_setDefaultError wst else wst"
  have cw: "closed ?w" "inWait ?w = inWait u + 1"
    by (simp_all add: interfere_def natsSub_close_fields log_def)
  have "NextMsg_wait t ((now, wst, \<lambda>x. natsSub_close x cc) # ws) NATS_OK 0 (u\<lparr>inWait := inWait u + 1\<rparr>)
      = NextMsg_wait t ws ?st (now + t) ?w"
    using h by (simp add: log_def Let_def)
  also have "\<dots> = Inr (?st, ?w)" using cw by (simp add: NextMsg_wait_ready)
  finally have w: "NextMsg_wait t ((now, wst, \<lambda>x. natsSub_close x cc) # ws) NATS_OK 0
        (u\<lparr>inWait := inWait u + 1\<rparr>)
      = Inr (?st, ?w)" .
  show "NextMsg_fetch u t ((now, wst, \<lambda>x. natsSub_close x cc) # ws)
          = Inr (NATS_INVALID_SUBSCRIPTION, None, Some (log [Unlock] (?w\<lparr>inWait := inWait u\<rparr>)))"
  proof -
    from h have t: "0 < sint t" by simp
    have f: "NextMsg_fetch u t ((now, wst, \<lambda>x. natsSub_close x cc) # ws)
        = NextMsg_deliver
            (if closed (?w\<lparr>inWait := inWait ?w - 1\<rparr>)
             then nats_setDefaultError NATS_INVALID_SUBSCRIPTION else ?st)
            (?w\<lparr>inWait := inWait ?w - 1\<rparr>)"
      by (simp only: NextMsg_fetch_def w Let_def t if_True sum.case prod.case)
    have c: "closed (?w\<lparr>inWait := inWait ?w - 1\<rparr>)" using cw by simp
    have i: "inWait ?w - 1 = inWait u" using cw by simp
    show ?thesis
      by (simp only: f c if_True i nats_setDefaultError_def)
        (simp add: NextMsg_deliver_error cw del: NextMsg_wait.simps)
  qed
qed

theorem close_wakes_and_terminates_witness:
  "closed (natsSub_close sub_async False)
   \<and> new_events sub_async (natsSub_close sub_async False) = [Lock, TimerStop, CondBroadcast, Unlock]
   \<and> deliverMsgs_loop (Some 7) [] (natsSub_close sub_async False)
        = Inr (log [Lock, Unlock] (natsSub_close sub_async False), [])
   \<and> natsSubscription_NextMsg True (Some (natsSub_close sub_sync True)) 100 []
        = Inr (NATS_CONNECTION_CLOSED, None, Some (log [Lock, Unlock] (natsSub_close sub_sync True)))
   \<and> deliverMsgs_loop (Some 7) [\<lambda>x. natsSub_close x False] sub_async
        = Inr (log [Unlock]
                 ((interfere (\<lambda>x. natsSub_close x False)
                     (log [Lock, CondWait] (sub_async\<lparr>inWait := inWait sub_async + 1\<rparr>)))
                  \<lparr>inWait := inWait sub_async\<rparr>), [])
   \<and> NextMsg_fetch sub_sync 100 [(1000, NATS_OK, \<lambda>x. natsSub_close x True)]
        = Inr (NATS_INVALID_SUBSCRIPTION, None,
               Some (log [Unlock]
                 ((interfere (\<lambda>x. natsSub_close x True)
                     (log [Now, CondTimedWait (1000 + 100)] (sub_sync\<lparr>inWait := inWait sub_sync + 1\<rparr>)))
                  \<lparr>inWait := inWait sub_sync\<rparr>)))"
proof -
  have h: "msgList_count sub_async = 0 \<and> \<not> closed sub_async"
    "msgList_count sub_sync = 0 \<and> \<not> closed sub_sync \<and> 0 < sint (100::int64_t)"
    "signalTimer sub_async \<noteq> None"
    by (simp_all add: example_defs)
  from close_wakes_and_terminates [of sub_async False "Some 7" "[]" 100 "[]" sub_async 1000 NATS_OK]
    close_wakes_and_terminates [of sub_sync True "Some 7" "[]" 100 "[]" sub_sync 1000 NATS_OK] h
  show ?thesis by simp
qed

subsection \<open>The signal timer\<close>

text \<open>
  C6. When the timer fires and \<open>natsMutex_TryLock\<close> fails, \<open>signalFailCount\<close> is
  incremented; if it is then not 10 the callback returns with nothing else done, and if it
  is 10 it is set to 0 and the mutex is taken with a blocking lock. With the mutex held
  (by the try or by the lock): on an empty list \<open>signalTimerInterval\<close> is set to 10000, the
  timer is reset to it, and the condition is not broadcast; on a list that is not empty the
  condition is broadcast exactly when \<open>inWait > 0\<close>. The mutex is then released.
\<close>

theorem signal_timer_fire:
  "(\<not> got \<and> signalFailCount s + 1 \<noteq> 10 \<longrightarrow>
      signalMsgAvailable got e s = (log [TryLock False] s)\<lparr>signalFailCount := signalFailCount s + 1\<rparr>)
   \<and> (\<not> got \<and> signalFailCount s + 1 = 10 \<longrightarrow>
      signalMsgAvailable got e s
        = signalMsgAvailable_locked (interfere e (log [TryLock False, Lock] (s\<lparr>signalFailCount := 0\<rparr>))))
   \<and> (got \<longrightarrow> signalMsgAvailable got e s = signalMsgAvailable_locked (log [TryLock True] s))
   \<and> (msgList_count u = 0 \<longrightarrow>
      signalMsgAvailable_locked u = log [TimerReset 10000, Unlock] (u\<lparr>signalTimerInterval := 10000\<rparr>))
   \<and> (msgList_count u \<noteq> 0 \<longrightarrow>
      signalMsgAvailable_locked u = log (if inWait u > 0 then [CondBroadcast, Unlock] else [Unlock]) u)"
  by (simp add: signalMsgAvailable_def signalMsgAvailable_locked_def Let_def log_def)

theorem signal_timer_fire_witness:
  "signalMsgAvailable False id (sub_sync\<lparr>signalFailCount := 3\<rparr>)
     = (log [TryLock False] (sub_sync\<lparr>signalFailCount := 3\<rparr>))\<lparr>signalFailCount := 3 + 1\<rparr>
   \<and> signalMsgAvailable False (\<lambda>x. holding [5] (x\<lparr>inWait := 1\<rparr>)) (sub_sync\<lparr>signalFailCount := 9\<rparr>)
     = log [CondBroadcast, Unlock]
         (interfere (\<lambda>x. holding [5] (x\<lparr>inWait := 1\<rparr>))
            (log [TryLock False, Lock] (sub_sync\<lparr>signalFailCount := 0\<rparr>)))
   \<and> signalMsgAvailable True id sub_sync
     = log [TimerReset 10000, Unlock] ((log [TryLock True] sub_sync)\<lparr>signalTimerInterval := 10000\<rparr>)"
proof -
  let ?e = "\<lambda>x. holding [5] (x\<lparr>inWait := 1\<rparr>)"
  let ?u = "interfere ?e (log [TryLock False, Lock] (sub_sync\<lparr>signalFailCount := 0\<rparr>))"
  have a: "\<not> False \<and> signalFailCount (sub_sync\<lparr>signalFailCount := 3\<rparr>) + 1 \<noteq> 10" by simp
  have b: "\<not> False \<and> signalFailCount (sub_sync\<lparr>signalFailCount := 9\<rparr>) + 1 = 10" by simp
  have u: "msgList_count ?u \<noteq> 0" "inWait ?u > 0" by (simp_all add: example_defs)
  have c: "msgList_count (log [TryLock True] sub_sync) = 0" by (simp add: example_defs)
  from signal_timer_fire [of False "sub_sync\<lparr>signalFailCount := 3\<rparr>" id ?u]
    signal_timer_fire [of False "sub_sync\<lparr>signalFailCount := 9\<rparr>" ?e ?u]
    signal_timer_fire [of True sub_sync id "log [TryLock True] sub_sync"]
    a b u c
  show ?thesis by simp
qed

subsection \<open>The list of messages\<close>

text \<open>
  C7. Let the list of the subscription be well formed: it holds the messages \<open>ms\<close>,
  \<open>tail\<close> points to the last of them and \<open>count\<close> is their number. Then after the rest of
  a worker iteration (which takes the head message off unless the subscription is closed or
  empty) the list is well formed again, and \<open>tail\<close> is \<open>NULL\<close> exactly when \<open>count\<close> is 0;
  the same holds after the delivery part of \<open>natsSubscription_NextMsg\<close>, which takes the
  head message off when it succeeds (it runs with status \<open>NATS_OK\<close> only on a list that is
  not empty). The loop of \<open>_freeSubscription\<close> ends with \<open>head\<close> at \<open>NULL\<close> and writes
  neither \<open>tail\<close> nor \<open>count\<close>, so that \<open>tail\<close> is \<open>NULL\<close> exactly when \<open>count\<close> is 0
  after it as before it.
\<close>

theorem tail_null_iff_empty_preserved:
  assumes "msgList_wf s ms"
  shows "(\<exists>c s'. deliverMsgs_body (Some cb) s = Inr (c, s')
            \<and> msgList_wf s' (if closed s then ms else tl ms) \<and> tail_null_iff_empty s')
     \<and> ((st = NATS_OK \<longrightarrow> ms \<noteq> []) \<longrightarrow>
          (\<exists>st' r s'. NextMsg_deliver st s = Inr (st', r, Some s')
            \<and> msgList_wf s' (if st' = NATS_OK then tl ms else ms) \<and> tail_null_iff_empty s'))
     \<and> (\<exists>s'. freeSubscription_drain s = Some s'
            \<and> msgList_head s' = None \<and> msgList_tail s' = msgList_tail s
            \<and> msgList_count s' = msgList_count s \<and> tail_null_iff_empty s')"
proof (intro conjI impI)
  show "\<exists>c s'. deliverMsgs_body (Some cb) s = Inr (c, s')
            \<and> msgList_wf s' (if closed s then ms else tl ms) \<and> tail_null_iff_empty s'"
  proof (cases "closed s \<or> ms = []")
    case True
    have wf1: "msgList_wf (log [Unlock] (s\<lparr>inWait := inWait s - 1\<rparr>)) ms"
      using assms by (simp add: msgList_wf_def log_def)
    have "msgList_head s = None" if "ms = []" using that assms by (simp add: msgList_wf_def)
    then have "\<exists>c. deliverMsgs_body (Some cb) s = Inr (c, log [Unlock] (s\<lparr>inWait := inWait s - 1\<rparr>))"
      using True by (auto simp: deliverMsgs_body_def Let_def)
    moreover have "(if closed s then ms else tl ms) = ms" using True by auto
    ultimately show ?thesis using wf1 msgList_wf_tail_null [OF wf1] by auto
  next
    case False
    then obtain m ms' where ms: "ms = m # ms'" and nc: "\<not> closed s" by (cases ms) auto
    have hd: "msgList_head s = Some m" using assms ms by (simp add: msgList_wf_def)
    let ?p = "pop_head m (s\<lparr>inWait := inWait s - 1, delivered := delivered s + 1\<rparr>)"
    have "msgList_wf (s\<lparr>inWait := inWait s - 1, delivered := delivered s + 1\<rparr>) (m # ms')"
      using assms ms by (simp add: msgList_wf_def)
    then have wfp: "msgList_wf ?p ms'" by (rule msgList_wf_pop)
    from deliverMsgs_body_pop [OF nc hd, of cb]
    obtain c evs where b: "deliverMsgs_body (Some cb) s = Inr (c, log evs ?p)" by blast
    have wf': "msgList_wf (log evs ?p) ms'" using wfp by simp
    show ?thesis using b wf' msgList_wf_tail_null [OF wf'] nc ms by auto
  qed
next
  assume ok: "st = NATS_OK \<longrightarrow> ms \<noteq> []"
  show "\<exists>st' r s'. NextMsg_deliver st s = Inr (st', r, Some s')
            \<and> msgList_wf s' (if st' = NATS_OK then tl ms else ms) \<and> tail_null_iff_empty s'"
  proof (cases "st = NATS_OK")
    case False
    have wf1: "msgList_wf (log [Unlock] s) ms" using assms by simp
    show ?thesis
      using NextMsg_deliver_error [OF False, of s] False wf1 msgList_wf_tail_null [OF wf1]
      by auto
  next
    case True
    with ok obtain m ms' where ms: "ms = m # ms'" by (cases ms) auto
    have hd: "msgList_head s = Some m" using assms ms by (simp add: msgList_wf_def)
    show ?thesis
    proof (cases "max_sub s > 0 \<and> delivered s + 1 > max_sub s")
      case over: True
      have wf1: "msgList_wf (log [Unlock] (s\<lparr>delivered := delivered s + 1\<rparr>)) ms"
        using assms by (simp add: msgList_wf_def log_def)
      show ?thesis
        using NextMsg_deliver_over [OF over] True wf1 msgList_wf_tail_null [OF wf1] by auto
    next
      case under: False
      let ?p = "pop_head m (s\<lparr>delivered := delivered s + 1\<rparr>)"
      have "msgList_wf (s\<lparr>delivered := delivered s + 1\<rparr>) (m # ms')"
        using assms ms by (simp add: msgList_wf_def)
      then have wfp: "msgList_wf ?p ms'" by (rule msgList_wf_pop)
      from NextMsg_deliver_take [OF under hd]
      obtain evs where r: "NextMsg_deliver NATS_OK s = Inr (NATS_OK, Some m, Some (log evs ?p))"
        by blast
      have wf': "msgList_wf (log evs ?p) ms'" using wfp by simp
      show ?thesis using r wf' msgList_wf_tail_null [OF wf'] True ms by auto
    qed
  qed
next
  have at: "msgs_at (msg_next s) (msgList_head s) ms" using assms by (simp add: msgList_wf_def)
  have t: "tail_null_iff_empty s" using assms by (rule msgList_wf_tail_null)
  show "\<exists>s'. freeSubscription_drain s = Some s'
            \<and> msgList_head s' = None \<and> msgList_tail s' = msgList_tail s
            \<and> msgList_count s' = msgList_count s \<and> tail_null_iff_empty s'"
    using drain_msgs_at [OF at] t by (simp add: log_def tail_null_iff_empty_def)
qed

theorem tail_null_iff_empty_preserved_witness:
  "(\<exists>c s'. deliverMsgs_body (Some 7) fetch_two = Inr (c, s')
      \<and> msgList_wf s' (tl [5, 6]) \<and> tail_null_iff_empty s')
   \<and> (\<exists>st' r s'. NextMsg_deliver NATS_OK fetch_two = Inr (st', r, Some s')
      \<and> msgList_wf s' (if st' = NATS_OK then tl [5, 6] else [5, 6]) \<and> tail_null_iff_empty s')
   \<and> (\<exists>s'. freeSubscription_drain fetch_two = Some s'
      \<and> msgList_head s' = None \<and> msgList_tail s' = msgList_tail fetch_two
      \<and> msgList_count s' = msgList_count fetch_two \<and> tail_null_iff_empty s')"
proof -
  have wf: "msgList_wf fetch_two [5, 6]"
    by (simp add: msgList_wf_def fetch_two_def example_defs)
  have nc: "closed fetch_two = False"
    by (simp add: fetch_two_def example_defs)
  have ne: "NATS_OK = NATS_OK \<longrightarrow> [5, 6::msg] \<noteq> []" by simp
  from tail_null_iff_empty_preserved [OF wf, of 7 NATS_OK] ne show ?thesis
    unfolding nc if_False by blast
qed

subsection \<open>The reference count\<close>



subsection \<open>Immediate delivery\<close>

text \<open>
  C9. \<open>natsSubscription_NoDeliveryDelay\<close> returns \<open>NATS_OK\<close> and leaves the subscription
  with \<open>noDelay\<close> set and no other field changed; it stops the signal timer only if
  \<open>noDelay\<close> was not set before. A second call on the result returns \<open>NATS_OK\<close> again,
  changes no field and makes no call but lock and unlock: two calls leave the subscription
  as one call does.
\<close>

theorem NoDeliveryDelay_idempotent:
  "\<exists>s1. natsSubscription_NoDeliveryDelay (Some s) = (NATS_OK, Some s1)
     \<and> noDelay s1
     \<and> s1\<lparr>trace := trace s\<rparr> = s\<lparr>noDelay := True\<rparr>
     \<and> new_events s s1 = (if noDelay s then [Lock, Unlock] else [Lock, TimerStop, Unlock])
     \<and> natsSubscription_NoDeliveryDelay (Some s1) = (NATS_OK, Some (log [Lock, Unlock] s1))"
  by (simp add: natsSubscription_NoDeliveryDelay_def log_def new_events_def Let_def)

theorem NoDeliveryDelay_idempotent_witness:
  "\<exists>s1. natsSubscription_NoDeliveryDelay (Some sub_sync) = (NATS_OK, Some s1)
     \<and> noDelay s1
     \<and> new_events sub_sync s1 = [Lock, TimerStop, Unlock]
     \<and> natsSubscription_NoDeliveryDelay (Some s1) = (NATS_OK, Some (log [Lock, Unlock] s1))"
proof -
  have "\<not> noDelay sub_sync" by (simp add: example_defs)
  with NoDeliveryDelay_idempotent [of sub_sync] show ?thesis by auto
qed

end
